theory Spec2Isabelle
  imports Complex_Main
begin

section \<open>Numbers and errors\<close>

text \<open>
  The two scripts compute with Python numbers. Moneyline odds are integers
  (\<open>np.random.choice([-120, -130, -110, 100, 110], ...)\<close>) that reach the
  functions as Python integers, and are modelled as \<^typ>\<open>int\<close>. Probabilities,
  payouts and stakes are Python floats, that is IEEE 754 binary64 numbers
  (doubles). They appear in two ways. The formulas of the odds conversion and of
  the bet evaluation (which quotient, which product, which difference) are stated
  on the exact real value of each expression, the value before it is rounded.
  Where a bound on the returned number is at stake (the range of the implied
  probability, the blend) the arithmetic is that of doubles: every operation
  returns the double nearest to its exact result, as defined in the next section.

  Python's true division \<open>a / b\<close> raises \<open>ZeroDivisionError\<close> when \<open>b\<close> is zero,
  and \<open>OverflowError\<close> when the quotient of two integers is too large for a
  double. An exception is a value of the model, so that "the function returns"
  and "the function raises" are different results.
\<close>

datatype py_error = ZeroDivisionError | ValueError | OverflowError

definition truediv :: "real \<Rightarrow> real \<Rightarrow> py_error + real" where
  "truediv a b = (if b = 0 then Inl ZeroDivisionError else Inr (a / b))"

section \<open>Doubles\<close>

text \<open>
  A double has a significand of 53 bits. A real number \<open>x\<close> with
  \<open>2^e \<le> |x| < 2^(e+1)\<close> lies between two neighbouring doubles that are
  multiples of \<open>2^(e-52)\<close>; below \<open>2^(-1022)\<close> (the subnormal range) the spacing
  stays \<open>2^(-1074)\<close>. An operation returns the nearer of the two neighbours of
  its exact result, and on a tie the one whose last bit is even. When the
  rounded magnitude reaches \<open>2^1024\<close> the result is not a finite number (an
  infinity), which is the value \<open>None\<close> here.

  \<open>bit_length\<close> is the number of binary digits of a natural number, and
  \<open>exponent x\<close> the \<open>e\<close> above: for \<open>|x| \<ge> 1\<close> it is read off the integer part
  of \<open>|x|\<close>, for \<open>|x| < 1\<close> off the integer part of \<open>1 / |x|\<close>.
\<close>

fun bit_length :: "nat \<Rightarrow> nat" where
  "bit_length n = (if n = 0 then 0 else Suc (bit_length (n div 2)))"

declare bit_length.simps [simp del]

definition exponent :: "real \<Rightarrow> int" where
  "exponent x =
     (if 1 \<le> \<bar>x\<bar> then int (bit_length (nat \<lfloor>\<bar>x\<bar>\<rfloor>)) - 1
      else - int (bit_length (nat (\<lceil>1 / \<bar>x\<bar>\<rceil> - 1))))"

text \<open>Rounding to the nearest integer, ties to the even one.\<close>

definition rne :: "real \<Rightarrow> int" where
  "rne x =
     (let f = \<lfloor>x\<rfloor>; d = x - of_int f
      in if d < 1 / 2 then f
         else if 1 / 2 < d then f + 1
         else if even f then f else f + 1)"

text \<open>
  \<open>ulp x\<close> is the spacing of the doubles around \<open>x\<close>, \<open>nearest x\<close> the multiple of
  it that \<open>x\<close> is rounded to, and \<open>to_double x\<close> the result of an operation whose
  exact value is \<open>x\<close>. A real number is a double when rounding leaves it as it is.
\<close>

definition emin :: "real \<Rightarrow> int" where
  "emin x = max (exponent x) (- 1022)"

definition ulp :: "real \<Rightarrow> real" where
  "ulp x = 2 powi (max (exponent x) (- 1022) - 52)"

definition nearest :: "real \<Rightarrow> real" where
  "nearest x = of_int (rne (x / ulp x)) * ulp x"

definition to_double :: "real \<Rightarrow> real option" where
  "to_double x = (let r = nearest x in if \<bar>r\<bar> < 2 ^ 1024 then Some r else None)"

definition is_double :: "real \<Rightarrow> bool" where
  "is_double x = (to_double x = Some x)"

section \<open>Market blending: \<open>mlb_betting_model_HrishikeshK.py\<close>, lines 95-100\<close>

text \<open>
  \<^verbatim>\<open>
  def american_to_prob(odds):
      return 100 / (odds + 100) if odds > 0 else (-odds) / ((-odds) + 100)
  \<close>
  \<open>american_to_prob\<close> is the quotient that the chosen branch denotes, as an exact
  real number; it says which quotient is taken and whether the division raises.
  The number that Python returns is \<open>american_to_prob_double\<close>: the operands are
  integers, the sum \<open>odds + 100\<close> is exact, and the true division of two integers
  returns the double nearest to their quotient.
\<close>

definition american_to_prob :: "int \<Rightarrow> py_error + real" where
  "american_to_prob odds =
     (if odds > 0 then truediv 100 (real_of_int (odds + 100))
      else truediv (real_of_int (- odds)) (real_of_int ((- odds) + 100)))"

definition american_to_prob_double :: "int \<Rightarrow> py_error + real" where
  "american_to_prob_double odds =
     (case american_to_prob odds of
        Inl e \<Rightarrow> Inl e
      | Inr q \<Rightarrow> (case to_double q of None \<Rightarrow> Inl OverflowError | Some d \<Rightarrow> Inr d))"

text \<open>
  \<^verbatim>\<open>
  alpha = 0.7
  df["p_blended"] = alpha * df["p_calibrated"] + (1 - alpha) * df["p_market"]
  \<close>
  The literal \<open>0.7\<close> is the double nearest to \<open>7/10\<close>. The columns hold doubles,
  and the line is evaluated row by row with four operations, each rounded: the
  product \<open>alpha * p_calibrated\<close>, the difference \<open>1 - alpha\<close>, its product with
  \<open>p_market\<close>, and the sum. The weight is an argument of the model; \<open>alpha\<close> is
  the script's value. A result that is not finite is \<open>None\<close>.
\<close>

definition alpha :: real where
  "alpha = nearest 0.7"

definition p_blended :: "real \<Rightarrow> real \<Rightarrow> real \<Rightarrow> real option" where
  "p_blended a p_calibrated p_market =
     (case to_double (a * p_calibrated) of
        None \<Rightarrow> None
      | Some t1 \<Rightarrow>
          (case to_double (1 - a) of
             None \<Rightarrow> None
           | Some c \<Rightarrow>
               (case to_double (c * p_market) of
                  None \<Rightarrow> None
                | Some t2 \<Rightarrow> to_double (t1 + t2))))"

section \<open>Expected value and Kelly stake: lines 113-122\<close>

text \<open>
  \<^verbatim>\<open>
  def kelly_fraction(p, odds):
      b = (-odds / 100) if odds < 0 else (odds / 100)
      q = 1 - p
      edge = b * p - q
      f_star = max(0.0, edge / b) if b > 0 else 0.0
      return f_star, edge
  \<close>
  \<open>kelly_b\<close> is the first line of the body, the payout multiplier \<open>b\<close>.
\<close>

definition kelly_b :: "int \<Rightarrow> py_error + real" where
  "kelly_b odds =
     (if odds < 0 then truediv (real_of_int (- odds)) 100
      else truediv (real_of_int odds) 100)"

definition kelly_fraction :: "real \<Rightarrow> int \<Rightarrow> py_error + (real \<times> real)" where
  "kelly_fraction p odds =
     (case kelly_b odds of
        Inl e \<Rightarrow> Inl e
      | Inr b \<Rightarrow>
          (let q = 1 - p;
               edge = b * p - q
           in case (if b > 0
                    then (case truediv edge b of
                            Inl e \<Rightarrow> Inl e
                          | Inr r \<Rightarrow> Inr (max 0 r))
                    else Inr 0) of
                Inl e \<Rightarrow> Inl e
              | Inr f_star \<Rightarrow> Inr (f_star, edge)))"

text \<open>
  Line 122 computes the expected value a second time, inline:
  \<^verbatim>\<open>
  ev = (sample.p_blended * ((-sample.away_moneyline / 100)
          if sample.away_moneyline < 0 else (sample.away_moneyline / 100)))
       - (1 - sample.p_blended)
  \<close>
\<close>

definition ev :: "real \<Rightarrow> int \<Rightarrow> py_error + real" where
  "ev p away_moneyline =
     (case (if away_moneyline < 0 then truediv (real_of_int (- away_moneyline)) 100
            else truediv (real_of_int away_moneyline) 100) of
        Inl e \<Rightarrow> Inl e
      | Inr m \<Rightarrow> Inr (p * m - (1 - p)))"

section \<open>Calibration: lines 81-82\<close>

text \<open>
  \<^verbatim>\<open>
  calibrator = IsotonicRegression(out_of_bounds='clip')
  df["p_calibrated"] = calibrator.fit_transform(df["p_base"], y)
  \<close>
  Modelled from the spec: the calibrator itself. \<open>IsotonicRegression\<close> is
  scikit-learn's class; the script only constructs it and calls \<open>fit_transform\<close>,
  and the code of \<open>fit\<close> and \<open>transform\<close> is not part of the sources. The
  definitions of this section follow section 4.3 of the specification: the fit is
  the non-decreasing step function of least squared error through the training
  breakpoints, computed by pooling adjacent violators; an input outside the range
  seen at fit time is clipped to the nearest boundary; fitting needs both outcome
  classes among the labels (section 7, \<open>InsufficientData\<close>).

  A block is a run of neighbouring breakpoints that share one fitted value: the
  least and the greatest raw probability of the run, the sum of its labels and
  the number of its cases. The fitted value of a block is the mean of its labels.
\<close>

datatype calib_error = InsufficientData

record block =
  lo :: real
  hi :: real
  y_sum :: real
  weight :: nat

type_synonym calibration_map = "block \<times> block list"

definition mean :: "block \<Rightarrow> real" where
  "mean b = y_sum b / real (weight b)"

definition single :: "real \<Rightarrow> real \<Rightarrow> block" where
  "single x y = \<lparr>lo = x, hi = x, y_sum = y, weight = 1\<rparr>"

definition merge :: "block \<Rightarrow> block \<Rightarrow> block" where
  "merge c b =
     \<lparr>lo = lo c, hi = hi b, y_sum = y_sum c + y_sum b, weight = weight c + weight b\<rparr>"

text \<open>
  Modelled from the spec: one breakpoint for each distinct raw probability of the
  training cases, which are given in increasing order of raw probability.
\<close>

fun group_ties :: "(real \<times> real) list \<Rightarrow> block list" where
  "group_ties [] = []"
| "group_ties ((x, y) # rest) =
     (case group_ties rest of
        [] \<Rightarrow> [single x y]
      | b # bs \<Rightarrow> if lo b = x then merge (single x y) b # bs else single x y # b # bs)"

text \<open>
  Modelled from the spec: pooling of adjacent violators. The blocks fitted so far
  are kept as a stack, the latest on top; a new block whose mean is below the
  mean of the top block is merged with it, and the merged block is compared with
  the next one.
\<close>

fun pool :: "block \<Rightarrow> block list \<Rightarrow> block list" where
  "pool b [] = [b]"
| "pool b (c # cs) = (if mean b < mean c then pool (merge c b) cs else b # c # cs)"

fun pava :: "block list \<Rightarrow> block list \<Rightarrow> block list" where
  "pava stack [] = stack"
| "pava stack (b # bs) = pava (pool b stack) bs"

text \<open>
  Modelled from the spec: \<open>fit\<close> takes the training cases as pairs of a raw
  probability and a label, and fails with \<open>InsufficientData\<close> unless at least two
  distinct outcome classes are present among the labels.
\<close>

definition fit :: "(real \<times> real) list \<Rightarrow> calib_error + calibration_map" where
  "fit data =
     (if length (remdups (map snd data)) < 2 then Inl InsufficientData
      else case rev (pava [] (group_ties (sort_key fst data))) of
             [] \<Rightarrow> Inl InsufficientData
           | b # bs \<Rightarrow> Inr (b, bs))"

text \<open>
  Modelled from the spec: \<open>transform\<close> clips its input to the range seen at fit
  time and reads the step function there: the value of the last block that
  starts at or below the input.
\<close>

definition clip :: "real \<Rightarrow> real \<Rightarrow> real \<Rightarrow> real" where
  "clip a b p = max a (min b p)"

fun step_value :: "real \<Rightarrow> block list \<Rightarrow> real \<Rightarrow> real" where
  "step_value v [] p = v"
| "step_value v (b # bs) p = (if lo b \<le> p then step_value (mean b) bs p else v)"

fun transform :: "calibration_map \<Rightarrow> real \<Rightarrow> real" where
  "transform (b, bs) p = step_value (mean b) bs (clip (lo b) (hi (last (b # bs))) p)"

definition fit_transform :: "(real \<times> real) list \<Rightarrow> calib_error + real list" where
  "fit_transform data =
     (case fit data of
        Inl e \<Rightarrow> Inl e
      | Inr cal \<Rightarrow> Inr (map (\<lambda>(x, y). transform cal x) data))"

section \<open>Accuracy: lines 72, 86 and 104\<close>

text \<open>
  \<^verbatim>\<open>
  acc_v1 = accuracy_score(y, (df["p_base"] > 0.5).astype(int))
  acc_v3 = accuracy_score(y, (df["p_blended"] > 0.5).astype(int))
  \<close>
  The comparison of a column with \<open>0.5\<close> gives a column of booleans, and
  \<open>astype(int)\<close> turns \<open>True\<close> into 1 and \<open>False\<close> into 0.
\<close>

definition gt_half :: "real list \<Rightarrow> bool list" where
  "gt_half col = map (\<lambda>p. p > 0.5) col"

definition astype_int :: "bool list \<Rightarrow> int list" where
  "astype_int col = map (\<lambda>t. if t then 1 else 0) col"

text \<open>
  \<open>accuracy_score\<close> is scikit-learn's: the number of positions where the two label
  vectors agree, divided by the number of positions. Vectors of different lengths
  raise \<open>ValueError\<close>. For empty vectors the fraction is undefined; the model
  makes that case an error as well, so that no quotient by zero is taken.
\<close>

definition accuracy_score :: "int list \<Rightarrow> int list \<Rightarrow> py_error + real" where
  "accuracy_score y_true y_pred =
     (if length y_true \<noteq> length y_pred \<or> y_true = [] then Inl ValueError
      else Inr (real (length (filter (\<lambda>(t, q). t = q) (zip y_true y_pred))) /
                real (length y_true)))"

definition acc_v1 :: "int list \<Rightarrow> real list \<Rightarrow> py_error + real" where
  "acc_v1 y col = accuracy_score y (astype_int (gt_half col))"

definition acc_v3 :: "int list \<Rightarrow> real list \<Rightarrow> py_error + real" where
  "acc_v3 y col = accuracy_score y (astype_int (gt_half col))"

text \<open>
  The specification's wording of the same number: the cases (positions) where the
  predicate \<open>p > 0.5\<close> matches the label, a label matching when it is 1 exactly if
  the predicate holds.
\<close>

definition matching_cases :: "real list \<Rightarrow> int list \<Rightarrow> nat list" where
  "matching_cases ps y = filter (\<lambda>i. (ps ! i > 1 / 2) = (y ! i = 1)) [0..<length y]"

section \<open>Recommendation label: \<open>mlb_betting_model_v3_results.py\<close>, line 47\<close>

text \<open>
  \<^verbatim>\<open>
  df["Recommendation"] = np.where(df["EV_per_$"] > 0.02, <bet label>, <pass label>)
  \<close>
  The two labels are string literals, a symbol followed by \<open>Bet\<close> and \<open>Pass\<close>:
  U+2705 and U+1F6AB, written here as their UTF-8 bytes.
\<close>

definition bet_label :: string where
  "bet_label = [CHR 0xE2, CHR 0x9C, CHR 0x85] @ '' Bet''"

definition pass_label :: string where
  "pass_label = [CHR 0xF0, CHR 0x9F, CHR 0x9A, CHR 0xAB] @ '' Pass''"

definition Recommendation :: "real list \<Rightarrow> string list" where
  "Recommendation EV_per = map (\<lambda>e. if e > 0.02 then bet_label else pass_label) EV_per"

section \<open>Basic facts\<close>

lemma truediv_nonzero: "b \<noteq> 0 \<Longrightarrow> truediv a b = Inr (a / b)"
  by (simp add: truediv_def)

lemma kelly_b_value:
  "kelly_b odds = Inr (if odds < 0 then - real_of_int odds / 100 else real_of_int odds / 100)"
  by (simp add: kelly_b_def truediv_def)

lemma kelly_b_positive:
  assumes "odds \<noteq> 0" and "kelly_b odds = Inr b"
  shows "0 < b"
  using assms by (auto simp: kelly_b_value split: if_splits)

section \<open>Rounding to doubles\<close>

subsection \<open>Rounding to an integer\<close>

lemma rne_cases: "rne x = \<lfloor>x\<rfloor> \<or> rne x = \<lfloor>x\<rfloor> + 1"
  by (simp add: rne_def Let_def)

lemma rne_lower: "\<lfloor>x\<rfloor> \<le> rne x"
  using rne_cases [of x] by linarith

lemma rne_upper: "rne x \<le> \<lfloor>x\<rfloor> + 1"
  using rne_cases [of x] by linarith

lemma rne_of_int [simp]: "rne (of_int k) = k"
  by (simp add: rne_def)

lemma rne_error: "\<bar>of_int (rne x) - x\<bar> \<le> 1 / 2"
proof -
  define d where "d = x - of_int \<lfloor>x\<rfloor>"
  have d: "0 \<le> d" "d < 1"
    unfolding d_def by linarith+
  have x: "x = of_int \<lfloor>x\<rfloor> + d"
    by (simp add: d_def)
  consider "d < 1 / 2" | "1 / 2 < d" | "d = 1 / 2" "even \<lfloor>x\<rfloor>" | "d = 1 / 2" "odd \<lfloor>x\<rfloor>"
    by fastforce
  then show ?thesis
  proof cases
    case 1
    then have "rne x = \<lfloor>x\<rfloor>" by (simp add: rne_def Let_def d_def)
    with 1 d show ?thesis by (simp add: d_def)
  next
    case 2
    then have "rne x = \<lfloor>x\<rfloor> + 1" by (simp add: rne_def Let_def d_def)
    with 2 d show ?thesis by (simp add: d_def)
  next
    case 3
    then have "rne x = \<lfloor>x\<rfloor>" by (simp add: rne_def Let_def d_def)
    with 3 show ?thesis by (simp add: d_def)
  next
    case 4
    then have "rne x = \<lfloor>x\<rfloor> + 1" by (simp add: rne_def Let_def d_def)
    with 4 show ?thesis by (simp add: d_def)
  qed
qed

lemma rne_mono:
  assumes "x \<le> y"
  shows "rne x \<le> rne y"
proof (cases "\<lfloor>x\<rfloor> = \<lfloor>y\<rfloor>")
  case True
  with assms have "x - of_int \<lfloor>x\<rfloor> \<le> y - of_int \<lfloor>y\<rfloor>"
    by simp
  with True show ?thesis
    by (auto simp: rne_def Let_def)
next
  case False
  from assms have "\<lfloor>x\<rfloor> \<le> \<lfloor>y\<rfloor>"
    by (rule floor_mono)
  with False have "\<lfloor>x\<rfloor> + 1 \<le> \<lfloor>y\<rfloor>"
    by simp
  with rne_upper [of x] rne_lower [of y] show ?thesis
    by linarith
qed

lemma rne_half_down: "0 \<le> x \<Longrightarrow> x \<le> 1 / 2 \<Longrightarrow> rne x = 0"
proof -
  assume a: "0 \<le> x" "x \<le> 1 / 2"
  then have "\<lfloor>x\<rfloor> = 0" by (simp add: floor_eq_iff)
  with a show ?thesis by (simp add: rne_def Let_def)
qed

lemma rne_pos: "1 / 2 < x \<Longrightarrow> 1 \<le> rne x"
proof -
  assume a: "1 / 2 < x"
  show ?thesis
  proof (cases "x < 1")
    case True
    with a have "\<lfloor>x\<rfloor> = 0" by (simp add: floor_eq_iff)
    with a show ?thesis by (simp add: rne_def Let_def)
  next
    case False
    then have "1 \<le> \<lfloor>x\<rfloor>" by simp
    with rne_lower [of x] show ?thesis by linarith
  qed
qed

subsection \<open>Bit length and exponent\<close>

lemma bit_length_0 [simp]: "bit_length 0 = 0"
  by (simp add: bit_length.simps)

lemma bit_length_pos: "0 < n \<Longrightarrow> bit_length n = Suc (bit_length (n div 2))"
  by (subst bit_length.simps) simp

lemma bit_length_bounds:
  "0 < n \<Longrightarrow> 2 ^ (bit_length n - 1) \<le> n \<and> n < 2 ^ bit_length n"
proof (induction n rule: bit_length.induct)
  case (1 n)
  show ?case
  proof (cases "n div 2 = 0")
    case True
    with "1.prems" have "n = 1" by (auto simp: div_eq_0_iff)
    then show ?thesis by (simp add: bit_length_pos)
  next
    case False
    then have pos: "0 < n div 2" by simp
    with "1.IH" "1.prems" have ih: "2 ^ (bit_length (n div 2) - 1) \<le> n div 2"
      "n div 2 < 2 ^ bit_length (n div 2)"
      by simp_all
    from pos have bl: "0 < bit_length (n div 2)"
      by (simp add: bit_length_pos)
    have "(2::nat) ^ bit_length (n div 2) = 2 * 2 ^ (bit_length (n div 2) - 1)" (is "?p = _")
      using bl by (cases "bit_length (n div 2)") simp_all
    with ih have "?p \<le> 2 * (n div 2)" by simp
    also have "\<dots> \<le> n" by simp
    finally have lower: "?p \<le> n" .
    from ih(2) have "n div 2 + 1 \<le> ?p" by simp
    then have "2 * (n div 2) + 2 \<le> 2 * ?p" by simp
    moreover have "n \<le> 2 * (n div 2) + 1" by presburger
    ultimately have upper: "n < 2 * ?p" by linarith
    from lower upper "1.prems" show ?thesis
      by (simp add: bit_length_pos)
  qed
qed

lemma two_powi_less_imp:
  assumes "(2::real) powi m < 2 powi n"
  shows "m < n"
proof (rule ccontr)
  assume "\<not> m < n"
  then have "n \<le> m" by simp
  then have "(2::real) powi n \<le> 2 powi m"
    by (intro power_int_increasing) simp_all
  with assms show False by simp
qed

lemma exponent_bounds:
  assumes "x \<noteq> 0"
  shows "2 powi exponent x \<le> \<bar>x\<bar> \<and> \<bar>x\<bar> < 2 powi (exponent x + 1)"
proof (cases "1 \<le> \<bar>x\<bar>")
  case True
  define n where "n = nat \<lfloor>\<bar>x\<bar>\<rfloor>"
  define k where "k = bit_length n"
  from True have fl: "1 \<le> \<lfloor>\<bar>x\<bar>\<rfloor>" by simp
  then have n: "0 < n" and nfl: "int n = \<lfloor>\<bar>x\<bar>\<rfloor>"
    by (simp_all add: n_def)
  from bit_length_bounds [OF n] have b: "2 ^ (k - 1) \<le> n" "n < 2 ^ k"
    by (simp_all add: k_def)
  from n have k: "0 < k"
    by (simp add: k_def bit_length_pos)
  have e: "exponent x = int (k - 1)"
    using True k by (simp add: exponent_def n_def k_def)
  have rn: "real n = real_of_int \<lfloor>\<bar>x\<bar>\<rfloor>"
    using nfl by (metis of_int_of_nat_eq)
  have "real n \<le> \<bar>x\<bar>"
    unfolding rn by linarith
  moreover from b(1) have "(2::real) ^ (k - 1) \<le> real n"
    by (metis of_nat_le_iff of_nat_numeral of_nat_power)
  ultimately have "(2::real) ^ (k - 1) \<le> \<bar>x\<bar>"
    by linarith
  then have lower: "2 powi exponent x \<le> \<bar>x\<bar>"
    by (simp add: e)
  have "\<bar>x\<bar> < real n + 1"
    unfolding rn by linarith
  moreover from b(2) have "real n + 1 \<le> 2 ^ k"
    by (metis Suc_leI of_nat_Suc of_nat_le_iff of_nat_numeral of_nat_power add.commute)
  moreover have "exponent x + 1 = int k"
    using k by (simp add: e)
  ultimately have "\<bar>x\<bar> < 2 ^ k \<and> exponent x + 1 = int k"
    by linarith
  then have "\<bar>x\<bar> < 2 powi (exponent x + 1)"
    by simp
  with lower show ?thesis by simp
next
  case False
  define a where "a = \<bar>x\<bar>"
  from False assms have a: "0 < a" "a < 1" by (simp_all add: a_def)
  define c where "c = \<lceil>1 / a\<rceil>"
  define n where "n = nat (c - 1)"
  define k where "k = bit_length n"
  from a have y: "1 < 1 / a" by simp
  then have c: "2 \<le> c" unfolding c_def by linarith
  then have n: "0 < n" and nc: "int n = c - 1" by (simp_all add: n_def)
  from bit_length_bounds [OF n] have b: "2 ^ (k - 1) \<le> n" "n < 2 ^ k"
    by (simp_all add: k_def)
  from n have k: "0 < k"
    by (simp add: k_def bit_length_pos)
  have e: "exponent x = - int k"
    using False by (simp add: exponent_def n_def k_def c_def a_def)
  have "real n < 1 / a"
  proof -
    have "real_of_int (c - 1) < 1 / a" unfolding c_def by linarith
    with nc show ?thesis by (metis of_int_of_nat_eq)
  qed
  moreover from b(1) have "(2::real) ^ (k - 1) \<le> real n"
    by (metis of_nat_le_iff of_nat_numeral of_nat_power)
  ultimately have "(2::real) ^ (k - 1) < 1 / a" by linarith
  with a have "a * 2 ^ (k - 1) < 1"
    by (simp add: field_simps)
  then have "a < 1 / 2 ^ (k - 1)"
    by (simp add: field_simps)
  moreover have "(2::real) powi (exponent x + 1) = 1 / 2 ^ (k - 1)"
  proof -
    have "exponent x + 1 = - int (k - 1)" using k by (simp add: e)
    then show ?thesis by (simp add: power_int_minus_divide)
  qed
  ultimately have upper: "\<bar>x\<bar> < 2 powi (exponent x + 1)"
    by (simp add: a_def)
  have "1 / a \<le> real_of_int c" unfolding c_def by linarith
  moreover have "real_of_int c \<le> 2 ^ k"
  proof -
    from b(2) nc have "c - 1 < 2 ^ k"
      by (metis of_nat_less_iff of_nat_numeral of_nat_power)
    then have "c \<le> 2 ^ k" by simp
    then show ?thesis by (metis of_int_le_iff of_int_numeral of_int_power)
  qed
  ultimately have "1 / a \<le> 2 ^ k" by linarith
  with a have "1 \<le> a * 2 ^ k"
    by (simp add: field_simps)
  then have "1 / 2 ^ k \<le> a"
    by (simp add: field_simps)
  then have "2 powi exponent x \<le> \<bar>x\<bar>"
    by (simp add: e a_def power_int_minus_divide)
  with upper show ?thesis by simp
qed

lemma exponent_unique:
  assumes "2 powi e \<le> \<bar>x\<bar>" and "\<bar>x\<bar> < 2 powi (e + 1)"
  shows "exponent x = e"
proof -
  have "(0::real) < 2 powi e" by simp
  with assms(1) have "0 < \<bar>x\<bar>" by linarith
  then have "x \<noteq> 0" by simp
  from exponent_bounds [OF this]
  have b: "2 powi exponent x \<le> \<bar>x\<bar>" "\<bar>x\<bar> < 2 powi (exponent x + 1)"
    by simp_all
  from assms(1) b(2) have "(2::real) powi e < 2 powi (exponent x + 1)" by linarith
  then have "e < exponent x + 1" by (rule two_powi_less_imp)
  moreover from b(1) assms(2) have "(2::real) powi exponent x < 2 powi (e + 1)" by linarith
  then have "exponent x < e + 1" by (rule two_powi_less_imp)
  ultimately show ?thesis by simp
qed

lemma exponent_mono:
  assumes "0 < \<bar>x\<bar>" and "\<bar>x\<bar> \<le> \<bar>y\<bar>"
  shows "exponent x \<le> exponent y"
proof -
  from assms have nz: "x \<noteq> 0" "y \<noteq> 0" by auto
  from exponent_bounds [OF nz(1)] exponent_bounds [OF nz(2)] assms(2)
  have "(2::real) powi exponent x < 2 powi (exponent y + 1)" by linarith
  then have "exponent x < exponent y + 1" by (rule two_powi_less_imp)
  then show ?thesis by simp
qed

lemma ulp_emin: "ulp x = 2 powi (emin x - 52)"
  by (simp add: ulp_def emin_def)

lemma ulp_pos [simp]: "0 < ulp x"
  by (simp add: ulp_def)

lemma ulp_nonneg [simp]: "0 \<le> ulp x"
  using ulp_pos [of x] by linarith

lemma ulp_nonzero [simp]: "ulp x \<noteq> 0"
  using ulp_pos [of x] by linarith

lemma two_powi_split: "(2::real) powi (e + 1) = 2 ^ 53 * 2 powi (e - 52)"
proof -
  have "e + 1 = 53 + (e - 52)" by simp
  then have "(2::real) powi (e + 1) = 2 powi (53 + (e - 52))" by (rule arg_cong)
  also have "\<dots> = 2 powi 53 * 2 powi (e - 52)"
    by (rule power_int_add) simp
  finally show ?thesis by simp
qed

lemma two_powi_split': "(2::real) powi e = 2 ^ 52 * 2 powi (e - 52)"
proof -
  have "e = 52 + (e - 52)" by simp
  then have "(2::real) powi e = 2 powi (52 + (e - 52))" by (rule arg_cong)
  also have "\<dots> = 2 powi 52 * 2 powi (e - 52)"
    by (rule power_int_add) simp
  finally show ?thesis by simp
qed

lemma nearest_0 [simp]: "nearest 0 = 0"
  by (simp add: nearest_def rne_def)

lemma nearest_nonneg:
  assumes "0 \<le> x"
  shows "0 \<le> nearest x"
proof -
  from assms have "0 \<le> x / ulp x" by simp
  then have "rne 0 \<le> rne (x / ulp x)" by (rule rne_mono)
  then have "0 \<le> rne (x / ulp x)" by (simp add: rne_def)
  then show ?thesis by (simp add: nearest_def)
qed

lemma nearest_error: "\<bar>nearest x - x\<bar> \<le> ulp x / 2"
proof -
  have "nearest x - x = (of_int (rne (x / ulp x)) - x / ulp x) * ulp x"
    by (simp add: nearest_def algebra_simps)
  then have "\<bar>nearest x - x\<bar> = \<bar>of_int (rne (x / ulp x)) - x / ulp x\<bar> * ulp x"
    by (simp add: abs_mult)
  also have "\<dots> \<le> (1 / 2) * ulp x"
    by (intro mult_right_mono rne_error) simp
  finally show ?thesis by simp
qed

lemma below_next_binade:
  assumes "0 < x"
  shows "x < 2 powi (emin x + 1)"
proof -
  from assms have "x \<noteq> 0" by simp
  from exponent_bounds [OF this] assms have "x < 2 powi (exponent x + 1)" by simp
  also have "\<dots> \<le> 2 powi (emin x + 1)"
    by (intro power_int_increasing) (simp_all add: emin_def)
  finally show ?thesis .
qed

lemma nearest_le_next_binade:
  assumes "0 < x"
  shows "nearest x \<le> 2 powi (emin x + 1)"
proof -
  have "x / ulp x \<le> 2 ^ 53"
    using below_next_binade [OF assms]
    by (simp add: two_powi_split [of "emin x"] ulp_emin pos_divide_le_eq)
  then have "rne (x / ulp x) \<le> rne (of_int (2 ^ 53))"
    by (intro rne_mono) simp
  then have "rne (x / ulp x) \<le> 2 ^ 53" by (simp only: rne_of_int)
  then have "real_of_int (rne (x / ulp x)) \<le> 2 ^ 53"
    by (metis of_int_le_iff of_int_numeral of_int_power)
  then have "nearest x \<le> 2 ^ 53 * ulp x"
    by (simp add: nearest_def)
  then show ?thesis
    by (simp add: two_powi_split [of "emin x"] ulp_emin)
qed

lemma nearest_ge_binade:
  assumes "0 < x" and "- 1022 \<le> exponent x"
  shows "2 powi (exponent x) \<le> nearest x"
proof -
  from assms(2) have em: "emin x = exponent x" by (simp add: emin_def)
  from assms(1) have "x \<noteq> 0" by simp
  from exponent_bounds [OF this] assms(1) have "2 powi exponent x \<le> x" by simp
  then have "2 ^ 52 \<le> x / ulp x"
    by (simp add: two_powi_split' [of "exponent x"] ulp_emin em pos_le_divide_eq)
  then have "rne (of_int (2 ^ 52)) \<le> rne (x / ulp x)"
    by (intro rne_mono) simp
  then have "2 ^ 52 \<le> rne (x / ulp x)" by (simp only: rne_of_int)
  then have "2 ^ 52 \<le> real_of_int (rne (x / ulp x))"
    by (metis of_int_le_iff of_int_numeral of_int_power)
  then have "2 ^ 52 * ulp x \<le> nearest x"
    by (simp add: nearest_def)
  then show ?thesis
    by (simp add: two_powi_split' [of "exponent x"] ulp_emin em)
qed

lemma emin_mono:
  assumes "0 < x" and "x \<le> y"
  shows "emin x \<le> emin y"
proof -
  from assms have "0 < \<bar>x\<bar>" "\<bar>x\<bar> \<le> \<bar>y\<bar>" by simp_all
  then have "exponent x \<le> exponent y" by (rule exponent_mono)
  then show ?thesis by (simp add: emin_def)
qed

lemma nearest_mono:
  assumes "0 \<le> x" and "x \<le> y"
  shows "nearest x \<le> nearest y"
proof (cases "x = 0")
  case True
  with assms nearest_nonneg [of y] show ?thesis by simp
next
  case False
  with assms have x: "0 < x" and y: "0 < y" by simp_all
  from emin_mono [OF x assms(2)] consider "emin x = emin y" | "emin x < emin y"
    by linarith
  then show ?thesis
  proof cases
    case 1
    then have u: "ulp x = ulp y" by (simp add: ulp_emin)
    from assms(2) have "x / ulp y \<le> y / ulp y"
      by (simp add: divide_right_mono)
    then have "rne (x / ulp y) \<le> rne (y / ulp y)" by (rule rne_mono)
    then show ?thesis
      by (simp add: nearest_def u)
  next
    case 2
    then have ey: "- 1022 \<le> exponent y" "emin y = exponent y" "emin x + 1 \<le> exponent y"
      unfolding emin_def by linarith+
    have "nearest x \<le> 2 powi (emin x + 1)"
      by (rule nearest_le_next_binade [OF x])
    also have "\<dots> \<le> 2 powi exponent y"
      using ey(3) by (intro power_int_increasing) simp_all
    also have "\<dots> \<le> nearest y"
      by (rule nearest_ge_binade [OF y ey(1)])
    finally show ?thesis .
  qed
qed

lemma emin_ge: "- 1022 \<le> emin x"
  by (simp add: emin_def)

lemma rne_quot_le:
  assumes "0 < x"
  shows "rne (x / ulp x) \<le> 2 ^ 53"
proof -
  have "x / ulp x \<le> 2 ^ 53"
    using below_next_binade [OF assms]
    by (simp add: two_powi_split [of "emin x"] ulp_emin pos_divide_le_eq)
  then have "rne (x / ulp x) \<le> rne (of_int (2 ^ 53))"
    by (intro rne_mono) simp
  then show ?thesis by (simp only: rne_of_int)
qed

lemma rne_quot_ge:
  assumes "0 < x" and "- 1022 \<le> exponent x"
  shows "2 ^ 52 \<le> rne (x / ulp x)"
proof -
  from assms(2) have em: "emin x = exponent x" by (simp add: emin_def)
  from assms(1) have "x \<noteq> 0" by simp
  from exponent_bounds [OF this] assms(1) have "2 powi exponent x \<le> x" by simp
  then have "2 ^ 52 \<le> x / ulp x"
    by (simp add: two_powi_split' [of "exponent x"] ulp_emin em pos_le_divide_eq)
  then have "rne (of_int (2 ^ 52)) \<le> rne (x / ulp x)"
    by (intro rne_mono) simp
  then show ?thesis by (simp only: rne_of_int)
qed

lemma nearest_grid:
  assumes "emin r = e" and "r = of_int k * 2 powi (e - 52)"
  shows "nearest r = r"
proof -
  define u where "u = (2::real) powi (e - 52)"
  have u: "ulp r = u"
    by (simp add: ulp_emin assms(1) u_def)
  have upos: "u \<noteq> 0"
    by (simp add: u_def)
  have ru: "r = of_int k * u"
    by (simp add: assms(2) u_def)
  have "r / u = of_int k"
    using upos by (simp add: ru)
  then have "of_int (rne (r / u)) * u = of_int k * u"
    by simp
  then show ?thesis
    unfolding nearest_def u using ru by simp
qed

lemma nearest_idem:
  assumes "0 \<le> x"
  shows "nearest (nearest x) = nearest x"
proof (cases "x = 0")
  case True
  then show ?thesis by simp
next
  case False
  with assms have x: "0 < x" by simp
  define e where "e = emin x"
  define u where "u = (2::real) powi (e - 52)"
  define k where "k = rne (x / ulp x)"
  define r where "r = nearest x"
  have u: "ulp x = u" "0 < u"
    by (simp_all add: u_def e_def ulp_emin)
  have r: "r = of_int k * u"
    by (simp add: r_def nearest_def k_def u(1))
  have k53: "k \<le> 2 ^ 53"
    unfolding k_def by (rule rne_quot_le [OF x])
  have k0: "0 \<le> k"
  proof -
    from nearest_nonneg [OF assms] have "0 \<le> of_int k * u"
      by (simp add: r [symmetric] r_def)
    with u(2) have "0 \<le> real_of_int k"
      by (simp add: zero_le_mult_iff)
    then show ?thesis by simp
  qed
  have e_ge: "- 1022 \<le> e"
    by (simp add: e_def emin_ge)
  have next_binade: "(2::real) powi (e + 1) = 2 ^ 53 * u"
    unfolding u_def by (rule two_powi_split)
  have this_binade: "(2::real) powi e = 2 ^ 52 * u"
    unfolding u_def by (rule two_powi_split')
  consider "k = 0" | "k = 2 ^ 53" | "0 < k" "k < 2 ^ 53"
    using k0 k53 by linarith
  then have "nearest r = r"
  proof cases
    case 1
    then show ?thesis by (simp add: r)
  next
    case 2
    then have rv: "r = 2 powi (e + 1)"
      by (simp add: r next_binade)
    have "2 powi (e + 1) \<le> \<bar>r\<bar>"
      by (simp add: rv)
    moreover have "\<bar>r\<bar> < 2 powi (e + 1 + 1)"
      unfolding rv by (simp add: power_int_strict_increasing)
    ultimately have "exponent r = e + 1"
      by (rule exponent_unique)
    with e_ge have "emin r = e + 1"
      by (simp add: emin_def)
    moreover have "r = of_int (2 ^ 52) * 2 powi (e + 1 - 52)"
      by (simp add: rv two_powi_split' [of "e + 1"])
    ultimately show ?thesis
      by (rule nearest_grid)
  next
    case 3
    from 3(1) u(2) have rpos: "0 < r"
      by (simp add: r)
    from 3(2) have "real_of_int k < 2 ^ 53"
      by (metis of_int_less_iff of_int_numeral of_int_power)
    with u(2) have "r < 2 ^ 53 * u"
      by (simp add: r)
    then have r_lt: "r < 2 powi (e + 1)"
      by (simp add: next_binade)
    from rpos have "r \<noteq> 0" by simp
    from exponent_bounds [OF this] rpos have rb: "2 powi exponent r \<le> r"
      by simp
    with r_lt have "(2::real) powi exponent r < 2 powi (e + 1)"
      by linarith
    then have er_le: "exponent r \<le> e"
      using two_powi_less_imp [of "exponent r" "e + 1"] by simp
    have "emin r = e"
    proof (cases "- 1022 \<le> exponent x")
      case True
      then have ex: "e = exponent x"
        by (simp add: e_def emin_def)
      from rne_quot_ge [OF x True] have "2 ^ 52 \<le> k"
        by (simp add: k_def)
      then have "2 ^ 52 \<le> real_of_int k"
        by (metis of_int_le_iff of_int_numeral of_int_power)
      with u(2) have "2 ^ 52 * u \<le> r"
        by (simp add: r)
      then have "2 powi e \<le> \<bar>r\<bar>"
        using rpos by (simp add: this_binade)
      moreover from r_lt rpos have "\<bar>r\<bar> < 2 powi (e + 1)"
        by simp
      ultimately have "exponent r = e"
        by (rule exponent_unique)
      with e_ge show ?thesis
        by (simp add: emin_def)
    next
      case False
      then have "e = - 1022"
        by (simp add: e_def emin_def)
      with er_le show ?thesis
        by (simp add: emin_def)
    qed
    then show ?thesis
      using r unfolding u_def by (rule nearest_grid)
  qed
  then show ?thesis
    by (simp add: r_def)
qed

lemma nearest_below_grid:
  assumes "0 \<le> z" and "0 \<le> w" and "z \<le> nearest w"
  shows "nearest z \<le> nearest w"
proof -
  from assms(1,3) have "nearest z \<le> nearest (nearest w)"
    by (rule nearest_mono)
  with nearest_idem [OF assms(2)] show ?thesis by simp
qed

lemma is_double_nearest: "is_double x \<Longrightarrow> nearest x = x"
  by (simp add: is_double_def to_double_def Let_def split: if_splits)

lemma to_double_small:
  assumes "\<bar>nearest x\<bar> \<le> 1"
  shows "to_double x = Some (nearest x)"
proof -
  have "(1::real) < 2 ^ 1024" by simp
  with assms have "\<bar>nearest x\<bar> < 2 ^ 1024" by linarith
  then show ?thesis by (simp add: to_double_def Let_def)
qed

lemma exponent_neg:
  assumes "0 < x" and "x < 1"
  shows "exponent x \<le> - 1"
proof -
  from assms(1) have "x \<noteq> 0" by simp
  from exponent_bounds [OF this] assms have "(2::real) powi exponent x < 2 powi 0"
    by simp
  then have "exponent x < 0" by (rule two_powi_less_imp)
  then show ?thesis by simp
qed

lemma exponent_le_0:
  assumes "0 < x" and "x < 2"
  shows "exponent x \<le> 0"
proof -
  from assms(1) have "x \<noteq> 0" by simp
  from exponent_bounds [OF this] assms have "(2::real) powi exponent x < 2 powi 1"
    by simp
  then have "exponent x < 1" by (rule two_powi_less_imp)
  then show ?thesis by simp
qed

lemma two_powi_m53: "(2::real) powi (- 53) = 1 / 2 ^ 53"
  by (simp add: power_int_minus_divide)

lemma two_powi_m52: "(2::real) powi (- 52) = 1 / 2 ^ 52"
  by (simp add: power_int_minus_divide)

lemma ulp_below_1:
  assumes "0 < x" and "x < 1"
  shows "ulp x \<le> 1 / 2 ^ 53"
proof -
  from exponent_neg [OF assms] have "emin x - 52 \<le> - 53"
    by (simp add: emin_def)
  then have "(2::real) powi (emin x - 52) \<le> 2 powi (- 53)"
    by (intro power_int_increasing) simp_all
  then show ?thesis
    by (simp only: ulp_emin two_powi_m53)
qed

lemma ulp_below_2:
  assumes "0 < x" and "x < 2"
  shows "ulp x \<le> 1 / 2 ^ 52"
proof -
  from exponent_le_0 [OF assms] have "emin x - 52 \<le> - 52"
    by (simp add: emin_def)
  then have "(2::real) powi (emin x - 52) \<le> 2 powi (- 52)"
    by (intro power_int_increasing) simp_all
  then show ?thesis
    by (simp only: ulp_emin two_powi_m52)
qed

lemma rne_numeral [simp]: "rne (numeral n) = numeral n"
  using rne_of_int [of "numeral n"] by simp

lemma nearest_eval:
  assumes "2 powi e \<le> \<bar>x\<bar>" and "\<bar>x\<bar> < 2 powi (e + 1)" and "- 1022 \<le> e"
    and "rne (x / 2 powi (e - 52)) = k"
  shows "nearest x = of_int k * 2 powi (e - 52)"
proof -
  from assms(1,2) have "exponent x = e" by (rule exponent_unique)
  with assms(3) have "ulp x = 2 powi (e - 52)"
    by (simp add: ulp_def)
  with assms(4) show ?thesis
    by (simp add: nearest_def)
qed

lemma nearest_1 [simp]: "nearest 1 = 1"
proof -
  have "nearest 1 = of_int (2 ^ 52) * 2 powi (0 - 52)"
    by (rule nearest_eval) (simp_all add: power_int_minus_divide)
  then show ?thesis by (simp add: power_int_minus_divide)
qed

lemma nearest_error_unit:
  assumes "0 \<le> x" and "x \<le> 1"
  shows "\<bar>nearest x - x\<bar> \<le> 1 / 2 ^ 54"
proof -
  consider "x = 0" | "x = 1" | "0 < x" "x < 1"
    using assms by linarith
  then show ?thesis
  proof cases
    case 1
    then show ?thesis by simp
  next
    case 2
    then show ?thesis by simp
  next
    case 3
    from nearest_error [of x] ulp_below_1 [OF 3] show ?thesis
      by simp
  qed
qed

lemma nearest_error_two:
  assumes "0 \<le> x" and "x < 2"
  shows "\<bar>nearest x - x\<bar> \<le> 1 / 2 ^ 53"
proof (cases "x = 0")
  case True
  then show ?thesis by simp
next
  case False
  with assms have "0 < x" by simp
  from nearest_error [of x] ulp_below_2 [OF this assms(2)] show ?thesis
    by simp
qed

lemma nearest_just_above_1: "nearest (1 + 1 / 2 ^ 53) = 1"
proof -
  have "nearest (1 + 1 / 2 ^ 53) = of_int (2 ^ 52) * 2 powi (0 - 52)"
    by (rule nearest_eval) (simp_all add: power_int_minus_divide rne_def Let_def)
  then show ?thesis by (simp add: power_int_minus_divide)
qed

lemma nearest_le_one:
  assumes "0 \<le> x" and "x \<le> 1 + 1 / 2 ^ 53"
  shows "nearest x \<le> 1"
  using nearest_mono [OF assms] by (simp only: nearest_just_above_1)

lemma nearest_unit:
  assumes "0 \<le> x" and "x \<le> 1"
  shows "0 \<le> nearest x \<and> nearest x \<le> 1"
  using nearest_nonneg [OF assms(1)] nearest_mono [OF assms] by simp

lemma rne_below_half:
  assumes "x < of_int k - 1 / 2"
  shows "rne x \<le> k - 1"
proof -
  from assms have "x < of_int k" by linarith
  then have fl: "\<lfloor>x\<rfloor> \<le> k - 1" by (simp add: floor_less_iff)
  show ?thesis
  proof (cases "\<lfloor>x\<rfloor> = k - 1")
    case True
    with assms have "x - of_int \<lfloor>x\<rfloor> < 1 / 2" by simp
    then have "rne x = \<lfloor>x\<rfloor>" by (simp add: rne_def Let_def)
    with True show ?thesis by simp
  next
    case False
    with fl have "\<lfloor>x\<rfloor> + 1 \<le> k - 1" by simp
    with rne_upper [of x] show ?thesis by linarith
  qed
qed

lemma nearest_half: "nearest (1 / 2) = 1 / 2"
proof -
  have "nearest (1 / 2) = of_int (2 ^ 52) * 2 powi (- 1 - 52)"
    by (rule nearest_eval) (simp_all add: power_int_minus_divide)
  then show ?thesis by (simp add: power_int_minus_divide)
qed

lemma nearest_just_below_1: "nearest (1 - 1 / 2 ^ 54) = 1"
proof -
  have "nearest (1 - 1 / 2 ^ 54) = of_int (2 ^ 53) * 2 powi (- 1 - 52)"
    by (rule nearest_eval) (simp_all add: power_int_minus_divide rne_def Let_def)
  then show ?thesis by (simp add: power_int_minus_divide)
qed

lemma nearest_lt_one_iff:
  assumes "0 \<le> x" and "x < 1"
  shows "nearest x < 1 \<longleftrightarrow> x < 1 - 1 / 2 ^ 54"
proof (cases "x < 1 / 2")
  case True
  with assms(1) have "nearest x \<le> nearest (1 / 2)"
    by (intro nearest_mono) simp_all
  then have "nearest x < 1" by (simp add: nearest_half)
  moreover have "(1::real) / 2 < 1 - 1 / 2 ^ 54" by simp
  with True have "x < 1 - 1 / 2 ^ 54" by linarith
  ultimately show ?thesis by simp
next
  case False
  then have half: "1 / 2 \<le> x" by simp
  have "2 powi (- 1) \<le> \<bar>x\<bar>" and "\<bar>x\<bar> < 2 powi (- 1 + 1)"
    using half assms by (simp_all add: power_int_minus_divide)
  then have "exponent x = - 1" by (rule exponent_unique)
  then have u: "ulp x = 1 / 2 ^ 53"
    by (simp add: ulp_def power_int_minus_divide)
  show ?thesis
  proof
    assume "nearest x < 1"
    show "x < 1 - 1 / 2 ^ 54"
    proof (rule ccontr)
      assume "\<not> x < 1 - 1 / 2 ^ 54"
      then have "1 - 1 / 2 ^ 54 \<le> x" by simp
      then have "nearest (1 - 1 / 2 ^ 54) \<le> nearest x"
        by (intro nearest_mono) simp_all
      with \<open>nearest x < 1\<close> show False
        by (simp only: nearest_just_below_1)
    qed
  next
    assume "x < 1 - 1 / 2 ^ 54"
    then have "x * 2 ^ 53 < (1 - 1 / 2 ^ 54) * 2 ^ 53"
      by (intro mult_strict_right_mono) simp_all
    also have "\<dots> = of_int (2 ^ 53) - 1 / 2" by simp
    finally have "rne (x * 2 ^ 53) \<le> 2 ^ 53 - 1"
      by (rule rne_below_half)
    then have "real_of_int (rne (x * 2 ^ 53)) \<le> real_of_int (2 ^ 53 - 1)"
      by (simp only: of_int_le_iff)
    then have "real_of_int (rne (x * 2 ^ 53)) \<le> 2 ^ 53 - 1"
      by simp
    moreover have "nearest x = real_of_int (rne (x * 2 ^ 53)) / 2 ^ 53"
      by (simp add: nearest_def u)
    ultimately have "nearest x \<le> (2 ^ 53 - 1) / 2 ^ 53"
      by (simp add: divide_right_mono)
    also have "\<dots> < 1" by simp
    finally show "nearest x < 1" .
  qed
qed

lemma two_powi_m1074: "(2::real) powi (- 1075) = (1 / 2) * 2 powi (- 1074)"
proof -
  have "(2::real) powi (- 1075) = 2 powi (- 1 + - 1074)" by simp
  also have "\<dots> = 2 powi (- 1) * 2 powi (- 1074)"
    by (rule power_int_add) simp
  finally show ?thesis by (simp add: power_int_minus_divide)
qed

lemma nearest_pos_iff:
  assumes "0 \<le> x"
  shows "0 < nearest x \<longleftrightarrow> 2 powi (- 1075) < x"
proof (cases "- 1022 \<le> exponent x \<and> 0 < x")
  case True
  then have "2 powi exponent x \<le> nearest x"
    by (intro nearest_ge_binade) simp_all
  moreover have "(0::real) < 2 powi exponent x" by simp
  ultimately have pos: "0 < nearest x" by linarith
  from True have "x \<noteq> 0" by simp
  from exponent_bounds [OF this] True have "2 powi exponent x \<le> x" by simp
  moreover have "(2::real) powi (- 1075) < 2 powi exponent x"
    using True by (intro power_int_strict_increasing) simp_all
  ultimately have "2 powi (- 1075) < x" by linarith
  with pos show ?thesis by simp
next
  case False
  show ?thesis
  proof (cases "x = 0")
    case True
    then show ?thesis by simp
  next
    case nz: False
    with assms False have x: "0 < x" and e: "exponent x < - 1022" by simp_all
    then have u: "ulp x = 2 powi (- 1074)"
      by (simp add: ulp_def max_def)
    have upos: "(0::real) < 2 powi (- 1074)" by simp
    show ?thesis
    proof
      assume "2 powi (- 1075) < x"
      then have "1 / 2 < x / 2 powi (- 1074)"
        using upos by (simp add: two_powi_m1074 pos_less_divide_eq)
      then have "1 \<le> rne (x / ulp x)"
        unfolding u by (rule rne_pos)
      then have "1 \<le> real_of_int (rne (x / ulp x))" by simp
      then have "1 * ulp x \<le> nearest x"
        unfolding nearest_def by (intro mult_right_mono) simp_all
      then have "ulp x \<le> nearest x" by simp
      with ulp_pos [of x] show "0 < nearest x" by linarith
    next
      assume pos: "0 < nearest x"
      show "2 powi (- 1075) < x"
      proof (rule ccontr)
        assume "\<not> 2 powi (- 1075) < x"
        then have "x \<le> (1 / 2) * 2 powi (- 1074)"
          by (simp add: two_powi_m1074)
        then have "x / 2 powi (- 1074) \<le> 1 / 2"
          using upos by (simp add: pos_divide_le_eq)
        moreover have "0 \<le> x / 2 powi (- 1074)"
          using x by simp
        ultimately have "rne (x / ulp x) = 0"
          unfolding u by (intro rne_half_down)
        then have "nearest x = 0" by (simp add: nearest_def)
        with pos show False by simp
      qed
    qed
  qed
qed

lemma nearest_eval_to:
  assumes "2 powi e \<le> \<bar>x\<bar>" and "\<bar>x\<bar> < 2 powi (e + 1)" and "- 1022 \<le> e"
    and "rne (x / 2 powi (e - 52)) = k" and "r = of_int k * 2 powi (e - 52)"
  shows "nearest x = r"
  using nearest_eval [OF assms(1-4)] assms(5) by simp

lemma to_double_eval:
  assumes "nearest x = r" and "\<bar>r\<bar> \<le> 1"
  shows "to_double x = Some r"
  using to_double_small [of x] assms by simp

lemma is_double_unit:
  assumes "0 \<le> x" and "x \<le> 1"
  shows "is_double (nearest x)"
proof -
  from nearest_unit [OF assms] have "\<bar>nearest (nearest x)\<bar> \<le> 1"
    by (simp add: nearest_idem [OF assms(1)])
  then have "to_double (nearest x) = Some (nearest (nearest x))"
    by (rule to_double_small)
  then show ?thesis
    by (simp add: is_double_def nearest_idem [OF assms(1)])
qed

section \<open>Odds conversion\<close>

text \<open>
  C3. For positive odds the conversion returns \<open>100 / (odds + 100)\<close>, for negative
  odds it returns \<open>(-odds) / ((-odds) + 100)\<close>.
\<close>

theorem american_to_prob_formula:
  "(0 < odds \<longrightarrow> american_to_prob odds = Inr (100 / (real_of_int odds + 100))) \<and>
   (odds < 0 \<longrightarrow>
      american_to_prob odds = Inr ((- real_of_int odds) / ((- real_of_int odds) + 100)))"
  by (simp add: american_to_prob_def truediv_def)

theorem american_to_prob_formula_witness:
  "(0 < (150::int) \<and> american_to_prob 150 = Inr (2 / 5)) \<and>
   ((-150::int) < 0 \<and> american_to_prob (-150) = Inr (3 / 5))"
  using american_to_prob_formula [of 150] american_to_prob_formula [of "-150"]
  by simp

lemma double_of_quotient:
  assumes "american_to_prob odds = Inr q" and "0 \<le> q" and "q \<le> 1"
  shows "american_to_prob_double odds = Inr (nearest q)"
proof -
  from nearest_unit [OF assms(2,3)] have "\<bar>nearest q\<bar> \<le> 1" by simp
  then have "to_double q = Some (nearest q)" by (rule to_double_small)
  with assms(1) show ?thesis by (simp add: american_to_prob_double_def)
qed

lemma tiny_lt: "(2::real) powi (- 1075) < 1 / 101"
proof -
  have "(2::real) powi (- 1075) < 2 powi (- 7)"
    by (intro power_int_strict_increasing) simp_all
  also have "\<dots> < 1 / 101" by (simp add: power_int_minus_divide)
  finally show ?thesis .
qed

lemma positive_odds:
  assumes "0 < odds"
  defines "q \<equiv> 100 / (real_of_int odds + 100)"
  shows "american_to_prob odds = Inr q" and "0 < q" and "q < 1 - 1 / 2 ^ 54"
    and "2 powi (- 1075) < q \<longleftrightarrow> odds < 100 * 2 ^ 1075 - 100"
proof -
  from assms(1) have n: "0 < real_of_int odds" by simp
  show "american_to_prob odds = Inr q"
    using assms(1) by (simp add: american_to_prob_def truediv_def q_def)
  show "0 < q" using n by (simp add: q_def)
  have "q \<le> 100 / 101"
    unfolding q_def using assms(1) by (simp add: field_simps)
  moreover have "(100::real) / 101 < 1 - 1 / 2 ^ 54" by simp
  ultimately show "q < 1 - 1 / 2 ^ 54" by linarith
  have "2 powi (- 1075) < q \<longleftrightarrow> real_of_int odds + 100 < 100 * 2 ^ 1075"
    using n by (simp add: q_def power_int_minus_divide field_simps)
  also have "\<dots> \<longleftrightarrow> real_of_int (odds + 100) < real_of_int (100 * 2 ^ 1075)"
    by simp
  also have "\<dots> \<longleftrightarrow> odds + 100 < 100 * 2 ^ 1075"
    by (simp only: of_int_less_iff)
  finally show "2 powi (- 1075) < q \<longleftrightarrow> odds < 100 * 2 ^ 1075 - 100"
    by simp
qed

lemma negative_odds:
  assumes "odds < 0"
  defines "q \<equiv> (- real_of_int odds) / ((- real_of_int odds) + 100)"
  shows "american_to_prob odds = Inr q" and "1 / 101 \<le> q" and "q < 1"
    and "q < 1 - 1 / 2 ^ 54 \<longleftrightarrow> - 1801439850948198300 < odds"
proof -
  define m where "m = - real_of_int odds"
  from assms(1) have "odds \<le> - 1" by simp
  then have "real_of_int odds \<le> real_of_int (- 1)" by (simp only: of_int_le_iff)
  then have m: "1 \<le> m" by (simp add: m_def)
  have q: "q = m / (m + 100)" by (simp add: q_def m_def)
  show "american_to_prob odds = Inr q"
    using assms(1) by (simp add: american_to_prob_def truediv_def q_def)
  show "1 / 101 \<le> q"
    unfolding q using m by (simp add: field_simps)
  show "q < 1"
    unfolding q using m by (simp add: field_simps)
  have "q < 1 - 1 / 2 ^ 54 \<longleftrightarrow> m < 1801439850948198300"
    unfolding q using m by (simp add: field_simps)
  also have "\<dots> \<longleftrightarrow> real_of_int (- 1801439850948198300) < real_of_int odds"
    unfolding m_def by (simp del: of_int_less_iff) linarith
  also have "\<dots> \<longleftrightarrow> - 1801439850948198300 < odds"
    by (simp only: of_int_less_iff)
  finally show "q < 1 - 1 / 2 ^ 54 \<longleftrightarrow> - 1801439850948198300 < odds" .
qed

lemma quotient_at_edge:
  "american_to_prob (- 1801439850948198300) = Inr (1 - 1 / 2 ^ 54)"
  by (simp add: american_to_prob_def truediv_def)

lemma double_third: "nearest (1 / 3) = 6004799503160661 / 2 ^ 54"
  by (rule nearest_eval_to [where e = "- 2" and k = 6004799503160661])
    (simp_all add: power_int_minus_divide rne_def Let_def)

text \<open>
  The number returned for nonzero odds is the double nearest to the quotient of
  the branch taken.
\<close>

lemma american_to_prob_double_formula:
  assumes "odds \<noteq> 0"
  shows "american_to_prob_double odds =
           Inr (nearest (if 0 < odds then 100 / (real_of_int odds + 100)
                         else (- real_of_int odds) / ((- real_of_int odds) + 100)))"
proof (cases "0 < odds")
  case True
  define q where "q = 100 / (real_of_int odds + 100)"
  from positive_odds [OF True]
  have "american_to_prob odds = Inr q" and "0 < q" and "q < 1 - 1 / 2 ^ 54"
    by (simp_all add: q_def)
  then have "american_to_prob_double odds = Inr (nearest q)"
    by (intro double_of_quotient) simp_all
  with True show ?thesis by (simp add: q_def)
next
  case False
  with assms have neg: "odds < 0" by simp
  define q where "q = (- real_of_int odds) / ((- real_of_int odds) + 100)"
  from negative_odds [OF neg]
  have "american_to_prob odds = Inr q" and "1 / 101 \<le> q" and "q < 1"
    by (simp_all add: q_def)
  then have "american_to_prob_double odds = Inr (nearest q)"
    by (intro double_of_quotient) simp_all
  with False show ?thesis by (simp add: q_def)
qed

text \<open>
  C8 says that for every nonzero odds the conversion returns a value strictly
  between 0 and 1. The exact quotient is, but the number returned is the double
  nearest to it. For odds of -1801439850948198300 the quotient is \<open>1 - 2^(-54)\<close>,
  halfway between the doubles \<open>1 - 2^(-53)\<close> and 1, and the tie goes to 1: the
  function returns exactly \<open>1.0\<close>.
\<close>

theorem american_to_prob_open_unit_counterexample:
  "(- 1801439850948198300 :: int) \<noteq> 0 \<and>
   american_to_prob_double (- 1801439850948198300) = Inr 1"
proof -
  have "american_to_prob_double (- 1801439850948198300) = Inr (nearest (1 - 1 / 2 ^ 54))"
    by (rule double_of_quotient [OF quotient_at_edge]) simp_all
  then show ?thesis
    by (simp only: nearest_just_below_1) simp
qed

text \<open>
  C8 as amended: for every nonzero odds the conversion returns a double in
  \<open>[0,1]\<close>. The value is below 1 exactly when the odds are greater than
  -1801439850948198300, and above 0 exactly when the odds are less than
  \<open>100 * 2^1075 - 100\<close>; between these two limits it is strictly between 0 and
  1, which includes the odds between -100 and 0.
\<close>

theorem american_to_prob_double_range:
  assumes "odds \<noteq> 0"
  shows "\<exists>pr. american_to_prob_double odds = Inr pr \<and> 0 \<le> pr \<and> pr \<le> 1 \<and>
           (pr < 1 \<longleftrightarrow> - 1801439850948198300 < odds) \<and>
           (0 < pr \<longleftrightarrow> odds < 100 * 2 ^ 1075 - 100)"
proof (cases "0 < odds")
  case True
  define q where "q = 100 / (real_of_int odds + 100)"
  from positive_odds [OF True]
  have ret: "american_to_prob odds = Inr q" and q: "0 < q" "q < 1 - 1 / 2 ^ 54"
    and tiny: "2 powi (- 1075) < q \<longleftrightarrow> odds < 100 * 2 ^ 1075 - 100"
    by (simp_all add: q_def)
  from q have unit: "0 \<le> q" "q < 1" by simp_all
  then have "q \<le> 1" by simp
  from double_of_quotient [OF ret unit(1) this]
  have "american_to_prob_double odds = Inr (nearest q)" .
  moreover from nearest_unit [OF unit(1) \<open>q \<le> 1\<close>]
  have "0 \<le> nearest q" "nearest q \<le> 1" by simp_all
  moreover from nearest_lt_one_iff [OF unit] q(2) True
  have "nearest q < 1 \<longleftrightarrow> - 1801439850948198300 < odds" by simp
  moreover from nearest_pos_iff [OF unit(1)] tiny
  have "0 < nearest q \<longleftrightarrow> odds < 100 * 2 ^ 1075 - 100" by simp
  ultimately show ?thesis by blast
next
  case False
  with assms have neg: "odds < 0" by simp
  define q where "q = (- real_of_int odds) / ((- real_of_int odds) + 100)"
  from negative_odds [OF neg]
  have ret: "american_to_prob odds = Inr q" and q: "1 / 101 \<le> q" "q < 1"
    and edge: "q < 1 - 1 / 2 ^ 54 \<longleftrightarrow> - 1801439850948198300 < odds"
    by (simp_all add: q_def)
  from q have unit: "0 \<le> q" "q \<le> 1" by simp_all
  from double_of_quotient [OF ret unit]
  have "american_to_prob_double odds = Inr (nearest q)" .
  moreover from nearest_unit [OF unit]
  have "0 \<le> nearest q" "nearest q \<le> 1" by simp_all
  moreover from nearest_lt_one_iff [OF unit(1) q(2)] edge
  have "nearest q < 1 \<longleftrightarrow> - 1801439850948198300 < odds" by simp
  moreover have "0 < nearest q \<longleftrightarrow> odds < 100 * 2 ^ 1075 - 100"
  proof -
    from tiny_lt q(1) have "2 powi (- 1075) < q" by linarith
    with nearest_pos_iff [OF unit(1)] have "0 < nearest q" by simp
    moreover have "(0::int) < 100 * 2 ^ 1075 - 100" by simp
    with neg have "odds < 100 * 2 ^ 1075 - 100" by linarith
    ultimately show ?thesis by simp
  qed
  ultimately show ?thesis by blast
qed

theorem american_to_prob_double_range_witness:
  "(- 50 :: int) \<noteq> 0 \<and>
   american_to_prob_double (- 50) = Inr (6004799503160661 / 2 ^ 54) \<and>
   (\<exists>pr. american_to_prob_double (- 50) = Inr pr \<and> 0 \<le> pr \<and> pr \<le> 1 \<and>
      (pr < 1 \<longleftrightarrow> - 1801439850948198300 < (- 50 :: int)) \<and>
      (0 < pr \<longleftrightarrow> (- 50 :: int) < 100 * 2 ^ 1075 - 100))"
proof -
  have q: "american_to_prob (- 50) = Inr (1 / 3)"
    by (simp add: american_to_prob_def truediv_def)
  have "american_to_prob_double (- 50) = Inr (nearest (1 / 3))"
    by (rule double_of_quotient [OF q]) simp_all
  then have "american_to_prob_double (- 50) = Inr (6004799503160661 / 2 ^ 54)"
    by (simp only: double_third)
  with american_to_prob_double_range [of "- 50"] show ?thesis
    by simp
qed

text \<open>
  C1 says that odds of 0 make both functions fail. Neither function checks its
  argument: for odds 0 the test \<open>odds > 0\<close> is false, so \<open>american_to_prob\<close> takes
  the second branch and returns \<open>0 / 100\<close>; in \<open>kelly_fraction\<close> the multiplier is
  \<open>0 / 100\<close>, the guard \<open>b > 0\<close> is false, and the stake \<open>0.0\<close> is returned with
  the edge \<open>-(1 - p)\<close>. No division by zero happens on the way.
\<close>

theorem odds_zero_counterexample:
  "\<not> isl (american_to_prob 0) \<and> american_to_prob 0 = Inr 0 \<and>
   \<not> isl (kelly_fraction (1 / 2) 0) \<and> kelly_fraction (1 / 2) 0 = Inr (0, - (1 / 2))"
  by (simp add: american_to_prob_def kelly_fraction_def kelly_b_def truediv_def)

text \<open>
  C1 as amended: for odds 0 the conversion returns the probability 0, and the bet
  evaluation returns the stake 0 and the edge \<open>-(1 - p)\<close>, for every \<open>p\<close>.
\<close>

theorem odds_zero_returns:
  "american_to_prob 0 = Inr 0 \<and> kelly_fraction p 0 = Inr (0, - (1 - p))"
  by (simp add: american_to_prob_def kelly_fraction_def kelly_b_def truediv_def)

text \<open>The quotient 0 is a double, so 0 is also the number returned.\<close>

lemma american_to_prob_double_zero: "american_to_prob_double 0 = Inr 0"
  by (simp add: american_to_prob_double_def american_to_prob_def truediv_def to_double_def)

section \<open>Bet evaluation\<close>

text \<open>
  C2. For a probability \<open>p\<close> in \<open>[0,1]\<close> and nonzero odds, the payout multiplier is
  \<open>-odds/100\<close> for negative and \<open>odds/100\<close> for positive odds, the edge is
  \<open>b * p - (1 - p)\<close>, and the Kelly fraction is \<open>max 0 (edge / b)\<close> when \<open>b > 0\<close>
  and 0 otherwise.
\<close>

theorem kelly_fraction_formula:
  assumes "0 \<le> p" and "p \<le> 1" and "odds \<noteq> 0"
  shows "kelly_b odds =
           Inr (if odds < 0 then - real_of_int odds / 100 else real_of_int odds / 100) \<and>
         kelly_fraction p odds =
           (let b = (if odds < 0 then - real_of_int odds / 100 else real_of_int odds / 100);
                edge = b * p - (1 - p)
            in Inr (if b > 0 then max 0 (edge / b) else 0, edge))"
  by (simp add: kelly_fraction_def kelly_b_value truediv_def Let_def)

theorem kelly_fraction_formula_witness:
  "((0::real) \<le> 1 / 2 \<and> (1 / 2 :: real) \<le> 1 \<and> (150::int) \<noteq> 0) \<and>
   kelly_b 150 = Inr (3 / 2) \<and> kelly_fraction (1 / 2) 150 = Inr (1 / 6, 1 / 4)"
  using kelly_fraction_formula [of "1 / 2" 150]
  by (simp add: Let_def)

text \<open>
  C4 gives two worked examples. The multiplier is \<open>1.10\<close> in both, as stated, but
  the other figures are not what the function returns: \<open>1.10 * 0.55 - 0.45\<close> is
  \<open>0.155\<close>, not \<open>0.165\<close>, and \<open>1.10 * 0.60 - 0.40\<close> is \<open>0.26\<close>, not \<open>0.10\<close>; the
  Kelly fractions differ accordingly, by more than rounding to the stated digits
  allows.
\<close>

theorem worked_examples_counterexample:
  "snd (projr (kelly_fraction (55 / 100) (- 110))) \<noteq> 165 / 1000 \<and>
   \<not> \<bar>fst (projr (kelly_fraction (55 / 100) (- 110))) - 15 / 100\<bar> < 5 / 1000 \<and>
   snd (projr (kelly_fraction (60 / 100) 110)) \<noteq> 10 / 100 \<and>
   projr (ev (60 / 100) 110) \<noteq> 10 / 100 \<and>
   \<not> \<bar>fst (projr (kelly_fraction (60 / 100) 110)) - 909 / 10000\<bar> < 5 / 10000"
  by (simp add: kelly_fraction_def kelly_b_def ev_def truediv_def)

text \<open>
  C4 as amended: for odds -110 and \<open>p = 0.55\<close> the evaluation yields \<open>b = 1.10\<close>,
  edge \<open>0.155\<close> and Kelly fraction \<open>31/220\<close>, about \<open>0.1409\<close>; for odds +110 and
  \<open>p = 0.60\<close> it yields \<open>b = 1.10\<close>, edge and expected value \<open>0.26\<close> and Kelly
  fraction \<open>13/55\<close>, about \<open>0.2364\<close>.
\<close>

theorem worked_examples_values:
  "kelly_b (- 110) = Inr (11 / 10) \<and>
   kelly_fraction (55 / 100) (- 110) = Inr (31 / 220, 155 / 1000) \<and>
   \<bar>31 / 220 - 1409 / 10000\<bar> < (1 / 10000 :: real) \<and>
   kelly_b 110 = Inr (11 / 10) \<and>
   kelly_fraction (60 / 100) 110 = Inr (13 / 55, 26 / 100) \<and>
   ev (60 / 100) 110 = Inr (26 / 100) \<and>
   \<bar>13 / 55 - 2364 / 10000\<bar> < (1 / 10000 :: real)"
  by (simp add: kelly_fraction_def kelly_b_def ev_def truediv_def)

text \<open>
  C10. For a probability \<open>p\<close> in \<open>[0,1]\<close> and nonzero odds, the edge returned by
  \<open>kelly_fraction\<close> is the value of the inline expression of line 122.
\<close>

theorem edge_equals_ev:
  assumes "0 \<le> p" and "p \<le> 1" and "odds \<noteq> 0"
  shows "\<exists>f_star edge. kelly_fraction p odds = Inr (f_star, edge) \<and> ev p odds = Inr edge"
  using assms
  by (auto simp: kelly_fraction_def kelly_b_def ev_def truediv_def Let_def mult.commute)

theorem edge_equals_ev_witness:
  "((0::real) \<le> 3 / 5 \<and> (3 / 5 :: real) \<le> 1 \<and> (- 120 :: int) \<noteq> 0) \<and>
   snd (projr (kelly_fraction (3 / 5) (- 120))) = 8 / 25 \<and>
   (\<exists>f_star edge. kelly_fraction (3 / 5) (- 120) = Inr (f_star, edge) \<and>
      ev (3 / 5) (- 120) = Inr edge)"
  using edge_equals_ev [of "3 / 5" "- 120"]
  by (simp add: kelly_fraction_def kelly_b_def truediv_def)

section \<open>Blending\<close>

lemma convex_lower:
  fixes a x y m :: real
  assumes "0 \<le> a" and "a \<le> 1" and "m \<le> x" and "m \<le> y"
  shows "m \<le> a * x + (1 - a) * y"
proof -
  have "a * m \<le> a * x"
    using assms by (simp add: mult_left_mono)
  moreover have "(1 - a) * m \<le> (1 - a) * y"
    using assms by (simp add: mult_left_mono)
  moreover have "a * m + (1 - a) * m = m"
    by (simp add: algebra_simps)
  ultimately show ?thesis by linarith
qed

lemma convex_upper:
  fixes a x y m :: real
  assumes "0 \<le> a" and "a \<le> 1" and "x \<le> m" and "y \<le> m"
  shows "a * x + (1 - a) * y \<le> m"
proof -
  have "a * x \<le> a * m"
    using assms by (simp add: mult_left_mono)
  moreover have "(1 - a) * y \<le> (1 - a) * m"
    using assms by (simp add: mult_left_mono)
  moreover have "a * m + (1 - a) * m = m"
    by (simp add: algebra_simps)
  ultimately show ?thesis by linarith
qed

lemma p_blended_steps:
  assumes a: "is_double a" "0 \<le> a" "a \<le> 1"
    and pc: "0 \<le> p_calibrated" "p_calibrated \<le> 1"
    and pm: "0 \<le> p_market" "p_market \<le> 1"
  defines "t1 \<equiv> nearest (a * p_calibrated)"
    and "c \<equiv> nearest (1 - a)"
  defines "t2 \<equiv> nearest (c * p_market)"
  defines "s \<equiv> nearest (t1 + t2)"
  shows "p_blended a p_calibrated p_market = Some s"
    and "0 \<le> s" and "s \<le> 1"
    and "\<bar>s - (a * p_calibrated + (1 - a) * p_market)\<bar> \<le> 5 / 2 ^ 54"
proof -
  have na: "nearest a = a"
    using a(1) by (rule is_double_nearest)
  have x1: "0 \<le> a * p_calibrated" "a * p_calibrated \<le> a"
    using a(2) pc by (simp_all add: mult_left_le)
  have t1: "0 \<le> t1" "t1 \<le> a"
    using nearest_nonneg [OF x1(1)] nearest_mono [OF x1] by (simp_all add: t1_def na)
  have e1: "\<bar>t1 - a * p_calibrated\<bar> \<le> 1 / 2 ^ 54"
    unfolding t1_def using x1 a(3) by (intro nearest_error_unit) simp_all
  have xc: "0 \<le> 1 - a" "1 - a \<le> 1"
    using a by simp_all
  have c: "0 \<le> c" "c \<le> 1"
    using nearest_unit [OF xc] by (simp_all add: c_def)
  have ec: "\<bar>c - (1 - a)\<bar> \<le> 1 / 2 ^ 54"
    unfolding c_def using xc by (rule nearest_error_unit)
  have x2: "0 \<le> c * p_market" "c * p_market \<le> c"
    using c(1) pm by (simp_all add: mult_left_le)
  have t2: "0 \<le> t2" "t2 \<le> c"
  proof -
    show "0 \<le> t2"
      unfolding t2_def by (rule nearest_nonneg [OF x2(1)])
    from x2(2) have "c * p_market \<le> nearest (1 - a)"
      by (simp add: c_def)
    with x2(1) xc(1) have "nearest (c * p_market) \<le> nearest (1 - a)"
      by (rule nearest_below_grid)
    then show "t2 \<le> c"
      by (simp add: t2_def c_def)
  qed
  have e2: "\<bar>t2 - c * p_market\<bar> \<le> 1 / 2 ^ 54"
    unfolding t2_def using x2 c(2) by (intro nearest_error_unit) simp_all
  have ecm: "\<bar>c * p_market - (1 - a) * p_market\<bar> \<le> 1 / 2 ^ 54"
  proof -
    have "\<bar>c * p_market - (1 - a) * p_market\<bar> = \<bar>c - (1 - a)\<bar> * p_market"
      using pm(1) by (simp add: abs_mult flip: left_diff_distrib)
    also have "\<dots> \<le> \<bar>c - (1 - a)\<bar> * 1"
      using pm(2) by (intro mult_left_mono) simp_all
    finally show ?thesis using ec by simp
  qed
  have sum: "0 \<le> t1 + t2" "t1 + t2 \<le> 1 + 1 / 2 ^ 54"
  proof -
    show "0 \<le> t1 + t2" using t1(1) t2(1) by simp
    from ec have "c \<le> 1 - a + 1 / 2 ^ 54" by linarith
    with t1(2) t2(2) show "t1 + t2 \<le> 1 + 1 / 2 ^ 54" by linarith
  qed
  have "(1::real) / 2 ^ 54 \<le> 1 / 2 ^ 53" by simp
  with sum(2) have sum53: "t1 + t2 \<le> 1 + 1 / 2 ^ 53" by linarith
  show s: "0 \<le> s" "s \<le> 1"
    using nearest_nonneg [OF sum(1)] nearest_le_one [OF sum(1) sum53]
    by (simp_all add: s_def)
  have "(1::real) + 1 / 2 ^ 54 < 2" by simp
  with sum(2) have "t1 + t2 < 2" by linarith
  with sum(1) have es: "\<bar>s - (t1 + t2)\<bar> \<le> 1 / 2 ^ 53"
    unfolding s_def by (rule nearest_error_two)
  have "(1::real) / 2 ^ 53 = 2 / 2 ^ 54" by simp
  with es e1 e2 ecm
  show "\<bar>s - (a * p_calibrated + (1 - a) * p_market)\<bar> \<le> 5 / 2 ^ 54"
    by linarith
  have d1: "to_double (a * p_calibrated) = Some t1"
    unfolding t1_def using t1 a(3) by (intro to_double_small) (simp add: t1_def)
  have dc: "to_double (1 - a) = Some c"
    unfolding c_def using c by (intro to_double_small) (simp add: c_def)
  have d2: "to_double (c * p_market) = Some t2"
    unfolding t2_def using t2 c(2) by (intro to_double_small) (simp add: t2_def)
  have ds: "to_double (t1 + t2) = Some s"
    unfolding s_def using s by (intro to_double_small) (simp add: s_def)
  show "p_blended a p_calibrated p_market = Some s"
    by (simp add: p_blended_def d1 dc d2 ds)
qed

lemma alpha_value: "alpha = 3152519739159347 / 2 ^ 52"
  unfolding alpha_def
  by (rule nearest_eval_to [where e = "- 1" and k = 6305039478318694])
    (simp_all add: power_int_minus_divide rne_def Let_def)

lemma double_09: "nearest 0.9 = 8106479329266893 / 2 ^ 53"
  by (rule nearest_eval_to [where e = "- 1" and k = 8106479329266893])
    (simp_all add: power_int_minus_divide rne_def Let_def)

lemma blend_09_t1: "nearest (alpha * nearest 0.9) = 5674535530486825 / 2 ^ 53"
  unfolding alpha_value double_09
  by (rule nearest_eval_to [where e = "- 1" and k = 5674535530486825])
    (simp_all add: power_int_minus_divide rne_def Let_def)

lemma blend_c: "nearest (1 - alpha) = 1351079888211149 / 2 ^ 52"
  unfolding alpha_value
  by (rule nearest_eval_to [where e = "- 2" and k = 5404319552844596])
    (simp_all add: power_int_minus_divide rne_def Let_def)

lemma blend_09_t2: "nearest (1351079888211149 / 2 ^ 52 * nearest 0.9) = 4863887597560137 / 2 ^ 54"
  unfolding double_09
  by (rule nearest_eval_to [where e = "- 2" and k = 4863887597560137])
    (simp_all add: power_int_minus_divide rne_def Let_def)

lemma blend_09_s:
  "nearest (5674535530486825 / 2 ^ 53 + 4863887597560137 / 2 ^ 54) = 4053239664633447 / 2 ^ 52"
  by (rule nearest_eval_to [where e = "- 1" and k = 8106479329266894])
    (simp_all add: power_int_minus_divide rne_def Let_def)

lemma blend_09:
  "p_blended alpha (nearest 0.9) (nearest 0.9) = Some (4053239664633447 / 2 ^ 52)"
proof -
  have d1: "to_double (alpha * nearest 0.9) = Some (5674535530486825 / 2 ^ 53)"
    by (rule to_double_eval [OF blend_09_t1]) simp
  have dc: "to_double (1 - alpha) = Some (1351079888211149 / 2 ^ 52)"
    by (rule to_double_eval [OF blend_c]) simp
  have d2: "to_double (1351079888211149 / 2 ^ 52 * nearest 0.9) = Some (4863887597560137 / 2 ^ 54)"
    by (rule to_double_eval [OF blend_09_t2]) simp
  have ds: "to_double (5674535530486825 / 2 ^ 53 + 4863887597560137 / 2 ^ 54) =
      Some (4053239664633447 / 2 ^ 52)"
    by (rule to_double_eval [OF blend_09_s]) simp
  show ?thesis
    by (simp only: p_blended_def d1 dc d2 ds option.case)
qed

text \<open>
  C6 says that the blend lies between the smaller and the larger of the two
  probabilities. The exact convex combination does, but line 100 rounds four
  times. For a weight of \<open>0.7\<close> the difference \<open>1 - alpha\<close> is the double
  \<open>0.30000000000000004\<close>, and with both probabilities equal to the double \<open>0.9\<close>
  the sum is rounded to \<open>0.9000000000000001\<close>, the next double above \<open>0.9\<close>.
\<close>

theorem p_blended_between_counterexample:
  "is_double alpha \<and> 0 \<le> alpha \<and> alpha \<le> 1 \<and>
   is_double (nearest 0.9) \<and> 0 \<le> nearest 0.9 \<and> nearest 0.9 \<le> 1 \<and>
   nearest 0.9 = 8106479329266893 / 2 ^ 53 \<and>
   p_blended alpha (nearest 0.9) (nearest 0.9) = Some (8106479329266894 / 2 ^ 53) \<and>
   max (nearest 0.9) (nearest 0.9) < 8106479329266894 / 2 ^ 53"
proof -
  have "is_double alpha"
    unfolding alpha_def by (rule is_double_unit) simp_all
  moreover have "is_double (nearest 0.9)"
    by (rule is_double_unit) simp_all
  moreover have "0 \<le> alpha \<and> alpha \<le> 1"
    by (simp add: alpha_value)
  moreover have "0 \<le> nearest 0.9 \<and> nearest 0.9 \<le> 1"
    by (simp add: double_09)
  moreover have "p_blended alpha (nearest 0.9) (nearest 0.9) = Some (8106479329266894 / 2 ^ 53)"
    using blend_09 by simp
  moreover have "max (nearest 0.9) (nearest 0.9) < 8106479329266894 / 2 ^ 53"
    by (simp add: double_09)
  ultimately show ?thesis
    using double_09 by blast
qed

text \<open>
  C6 as amended: for doubles \<open>p_model\<close>, \<open>p_market\<close> and a weight in \<open>[0,1]\<close>, the
  blend is a finite double that lies between the smaller and the larger of the
  two probabilities up to a rounding error of at most \<open>2^(-51)\<close>, and it lies in
  \<open>[0,1]\<close>.
\<close>

theorem p_blended_near_between:
  assumes "is_double a" and "0 \<le> a" and "a \<le> 1"
    and "is_double p_model" and "0 \<le> p_model" and "p_model \<le> 1"
    and "is_double p_market" and "0 \<le> p_market" and "p_market \<le> 1"
  shows "\<exists>r. p_blended a p_model p_market = Some r \<and>
           min p_model p_market - 1 / 2 ^ 51 \<le> r \<and>
           r \<le> max p_model p_market + 1 / 2 ^ 51 \<and>
           0 \<le> r \<and> r \<le> 1"
proof -
  define r where "r = nearest (nearest (a * p_model) + nearest (nearest (1 - a) * p_market))"
  define v where "v = a * p_model + (1 - a) * p_market"
  from p_blended_steps [OF assms(1,2,3,5,6,8,9)]
  have ret: "p_blended a p_model p_market = Some r" and unit: "0 \<le> r" "r \<le> 1"
    and err: "\<bar>r - v\<bar> \<le> 5 / 2 ^ 54"
    by (simp_all add: r_def v_def)
  have lo: "min p_model p_market \<le> v"
    unfolding v_def using assms(2,3) by (intro convex_lower) simp_all
  have hi: "v \<le> max p_model p_market"
    unfolding v_def using assms(2,3) by (intro convex_upper) simp_all
  have "(5::real) / 2 ^ 54 \<le> 1 / 2 ^ 51" by simp
  with err have "\<bar>r - v\<bar> \<le> 1 / 2 ^ 51" by linarith
  with lo hi have "min p_model p_market - 1 / 2 ^ 51 \<le> r"
    and "r \<le> max p_model p_market + 1 / 2 ^ 51"
    by linarith+
  with ret unit show ?thesis by blast
qed

theorem p_blended_near_between_witness:
  "(is_double alpha \<and> 0 \<le> alpha \<and> alpha \<le> 1 \<and>
    is_double (nearest 0.9) \<and> 0 \<le> nearest 0.9 \<and> nearest 0.9 \<le> 1) \<and>
   (\<exists>r. p_blended alpha (nearest 0.9) (nearest 0.9) = Some r \<and>
      min (nearest 0.9) (nearest 0.9) - 1 / 2 ^ 51 \<le> r \<and>
      r \<le> max (nearest 0.9) (nearest 0.9) + 1 / 2 ^ 51 \<and> 0 \<le> r \<and> r \<le> 1)"
proof -
  have a: "is_double alpha"
    unfolding alpha_def by (rule is_double_unit) simp_all
  have p: "is_double (nearest 0.9)"
    by (rule is_double_unit) simp_all
  have ar: "0 \<le> alpha" "alpha \<le> 1"
    by (simp_all add: alpha_value)
  have pr: "0 \<le> nearest 0.9" "nearest 0.9 \<le> 1"
    by (simp_all add: double_09)
  from p_blended_near_between [OF a ar p pr p pr] a p ar pr show ?thesis
    by blast
qed

section \<open>Accuracy\<close>

lemma zip_nth_prediction:
  assumes "length ps = length y" and "i < length y"
  shows "zip y (astype_int (gt_half ps)) ! i = (y ! i, if ps ! i > 1 / 2 then 1 else 0)"
  using assms by (simp add: astype_int_def gt_half_def)

lemma count_agree:
  assumes "length ps = length y" and "set y \<subseteq> {0, 1}"
  shows "length (filter (\<lambda>(t, q). t = q) (zip y (astype_int (gt_half ps)))) =
         length (matching_cases ps y)"
proof -
  let ?z = "zip y (astype_int (gt_half ps))"
  let ?P = "\<lambda>i. (ps ! i > 1 / 2) = (y ! i = 1)"
  have len: "length ?z = length y"
    using assms(1) by (simp add: astype_int_def gt_half_def)
  have "{i. i < length ?z \<and> (\<lambda>(t, q). t = q) (?z ! i)} = {i. i < length y \<and> ?P i}"
  proof (rule set_eqI)
    fix i
    show "i \<in> {i. i < length ?z \<and> (\<lambda>(t, q). t = q) (?z ! i)} \<longleftrightarrow>
          i \<in> {i. i < length y \<and> ?P i}"
    proof (cases "i < length y")
      case True
      then have "y ! i \<in> set y" by simp
      with assms(2) have bin: "y ! i = 0 \<or> y ! i = 1" by auto
      from True len bin zip_nth_prediction [OF assms(1) True] show ?thesis
        by auto
    next
      case False
      with len show ?thesis by simp
    qed
  qed
  moreover have "{i. i < length [0..<length y] \<and> ?P ([0..<length y] ! i)} =
                 {i. i < length y \<and> ?P i}"
    by auto
  ultimately show ?thesis
    by (simp add: matching_cases_def length_filter_conv_card)
qed

text \<open>
  C7. For probabilities and binary labels of the same (positive) length, the
  accuracy is the number of cases where \<open>p > 0.5\<close> matches the label, divided by
  the number of cases; a probability of exactly \<open>0.5\<close> is predicted as 0.
\<close>

theorem accuracy_is_fraction:
  assumes "length ps = length y" and "y \<noteq> []" and "set y \<subseteq> {0, 1}"
  shows "acc_v1 y ps = Inr (real (length (matching_cases ps y)) / real (length y)) \<and>
         acc_v3 y ps = Inr (real (length (matching_cases ps y)) / real (length y)) \<and>
         astype_int (gt_half [0.5]) = [0]"
  using assms(1,2) count_agree [OF assms(1,3)]
  by (simp add: acc_v1_def acc_v3_def accuracy_score_def astype_int_def gt_half_def)

theorem accuracy_is_fraction_witness:
  "(length [1 / 2, 3 / 5, 2 / 5, 7 / 10 :: real] = length [1, 1, 0, 0 :: int] \<and>
    [1, 1, 0, 0 :: int] \<noteq> [] \<and> set [1, 1, 0, 0 :: int] \<subseteq> {0, 1}) \<and>
   astype_int (gt_half [1 / 2, 3 / 5, 2 / 5, 7 / 10]) = [0, 1, 0, 1] \<and>
   acc_v3 [1, 1, 0, 0] [1 / 2, 3 / 5, 2 / 5, 7 / 10] = Inr (1 / 2) \<and>
   acc_v3 [1, 1, 0, 0] [1 / 2, 3 / 5, 2 / 5, 7 / 10] =
     Inr (real (length (matching_cases [1 / 2, 3 / 5, 2 / 5, 7 / 10] [1, 1, 0, 0])) /
          real (length [1, 1, 0, 0 :: int]))"
  using accuracy_is_fraction [of "[1 / 2, 3 / 5, 2 / 5, 7 / 10]" "[1, 1, 0, 0]"]
  by (simp add: acc_v3_def accuracy_score_def astype_int_def gt_half_def)

section \<open>Recommendation label\<close>

lemma labels_distinct: "bet_label \<noteq> pass_label"
  by (simp add: bet_label_def pass_label_def)

text \<open>
  C9. For every row, the label is the bet label exactly when the row's expected
  value is greater than \<open>0.02\<close>, and the pass label otherwise; an expected value
  of exactly \<open>0.02\<close> gives the pass label.
\<close>

theorem Recommendation_threshold:
  assumes "i < length EV_per"
  shows "length (Recommendation EV_per) = length EV_per \<and>
         (Recommendation EV_per ! i = bet_label \<longleftrightarrow> EV_per ! i > 2 / 100) \<and>
         (Recommendation EV_per ! i = pass_label \<longleftrightarrow> \<not> EV_per ! i > 2 / 100) \<and>
         Recommendation [2 / 100] = [pass_label]"
  using assms labels_distinct by (auto simp: Recommendation_def)

theorem Recommendation_threshold_witness:
  "(1::nat) < length [3 / 100, 2 / 100, 1 / 100 :: real] \<and>
   Recommendation [3 / 100, 2 / 100, 1 / 100] = [bet_label, pass_label, pass_label] \<and>
   Recommendation [3 / 100, 2 / 100, 1 / 100] ! 1 = pass_label"
  using Recommendation_threshold [of 1 "[3 / 100, 2 / 100, 1 / 100]"]
  by (simp add: Recommendation_def)

section \<open>Calibration\<close>

lemma pool_nonempty: "pool b stack \<noteq> []"
  by (induction stack arbitrary: b) auto

lemma pava_nonempty: "stack \<noteq> [] \<or> bs \<noteq> [] \<Longrightarrow> pava stack bs \<noteq> []"
  by (induction bs arbitrary: stack) (auto simp: pool_nonempty)

lemma group_ties_nonempty: "ps \<noteq> [] \<Longrightarrow> group_ties ps \<noteq> []"
  by (cases ps) (auto split: list.splits if_splits)

text \<open>
  The invariant of the pooling: read from the bottom of the stack to its top, the
  means of the blocks never decrease.
\<close>

lemma pool_descending:
  "sorted (rev (map mean stack)) \<Longrightarrow> sorted (rev (map mean (pool b stack)))"
proof (induction stack arbitrary: b)
  case Nil
  then show ?case by simp
next
  case (Cons c cs)
  show ?case
  proof (cases "mean b < mean c")
    case True
    from Cons.prems have "sorted (rev (map mean cs))"
      by (simp add: sorted_append)
    then have "sorted (rev (map mean (pool (merge c b) cs)))"
      by (rule Cons.IH)
    with True show ?thesis by simp
  next
    case False
    with Cons.prems show ?thesis
      by (auto simp: sorted_append)
  qed
qed

lemma pava_descending:
  "sorted (rev (map mean stack)) \<Longrightarrow> sorted (rev (map mean (pava stack bs)))"
  by (induction bs arbitrary: stack) (auto simp: pool_descending)

lemma fit_sorted:
  assumes "fit data = Inr (b, bs)"
  shows "sorted (map mean (b # bs))"
proof -
  from assms have cal: "rev (pava [] (group_ties (sort_key fst data))) = b # bs"
    by (auto simp: fit_def split: if_splits list.splits)
  have "sorted (rev (map mean (pava [] (group_ties (sort_key fst data)))))"
    by (rule pava_descending) simp
  then have "sorted (map mean (rev (pava [] (group_ties (sort_key fst data)))))"
    by (simp add: rev_map)
  with cal show ?thesis by simp
qed

text \<open>Fitting succeeds whenever two outcome classes are present.\<close>

lemma fit_succeeds:
  assumes "2 \<le> length (remdups (map snd data))"
  shows "\<exists>cal. fit data = Inr cal"
proof -
  from assms have "data \<noteq> []" by auto
  then have "sort_key fst data \<noteq> []"
    by (metis length_sort length_0_conv)
  then have "pava [] (group_ties (sort_key fst data)) \<noteq> []"
    by (intro pava_nonempty disjI2 group_ties_nonempty)
  then obtain b bs where "rev (pava [] (group_ties (sort_key fst data))) = b # bs"
    by (cases "rev (pava [] (group_ties (sort_key fst data)))") auto
  with assms show ?thesis
    by (simp add: fit_def)
qed

lemma step_value_lower:
  "sorted (v # map mean bs) \<Longrightarrow> v \<le> step_value v bs p"
proof (induction bs arbitrary: v)
  case Nil
  then show ?case by simp
next
  case (Cons b bs)
  from Cons.prems have "v \<le> mean b" and "sorted (mean b # map mean bs)"
    by simp_all
  from Cons.IH [OF this(2)] have "mean b \<le> step_value (mean b) bs p" .
  with \<open>v \<le> mean b\<close> show ?case by simp
qed

lemma step_value_mono:
  "sorted (v # map mean bs) \<Longrightarrow> p1 \<le> p2 \<Longrightarrow> step_value v bs p1 \<le> step_value v bs p2"
proof (induction bs arbitrary: v)
  case Nil
  then show ?case by simp
next
  case (Cons b bs)
  from Cons.prems(1) have vb: "v \<le> mean b" and tl: "sorted (mean b # map mean bs)"
    by simp_all
  consider "lo b \<le> p1" | "p1 < lo b" "lo b \<le> p2" | "p2 < lo b"
    by linarith
  then show ?case
  proof cases
    case 1
    with Cons.prems(2) have "lo b \<le> p2" by simp
    with 1 Cons.IH [OF tl Cons.prems(2)] show ?thesis by simp
  next
    case 2
    from step_value_lower [OF tl] have "mean b \<le> step_value (mean b) bs p2" .
    with 2 vb show ?thesis by simp
  next
    case 3
    with Cons.prems(2) show ?thesis by simp
  qed
qed

lemma clip_mono: "p1 \<le> p2 \<Longrightarrow> clip a b p1 \<le> clip a b p2"
  by (auto simp: clip_def max_def min_def)

lemma sorted_transform_le:
  assumes "sorted (map mean (b # bs))" and "p1 \<le> p2"
  shows "transform (b, bs) p1 \<le> transform (b, bs) p2"
proof -
  from assms(1) have "sorted (mean b # map mean bs)" by simp
  then have "step_value (mean b) bs (clip (lo b) (hi (last (b # bs))) p1)
          \<le> step_value (mean b) bs (clip (lo b) (hi (last (b # bs))) p2)"
    using clip_mono [OF assms(2)] by (rule step_value_mono)
  then show ?thesis by simp
qed

text \<open>
  The calibrated column keeps the rank order of the raw column it was fitted on.
\<close>

lemma fit_transform_rank_order:
  assumes "fit_transform data = Inr out" and "i < length data" and "j < length data"
    and "fst (data ! i) \<le> fst (data ! j)"
  shows "length out = length data \<and> out ! i \<le> out ! j"
proof -
  from assms(1) obtain b bs where cal: "fit data = Inr (b, bs)"
    and out: "out = map (\<lambda>(x, y). transform (b, bs) x) data"
    by (auto simp: fit_transform_def split: sum.splits)
  from sorted_transform_le [OF fit_sorted [OF cal] assms(4)] out assms(2,3) show ?thesis
    by (simp add: case_prod_beta)
qed

lemma fit_example:
  "fit [(3 / 5, 0), (1 / 5, 0), (4 / 5, 1), (2 / 5, 1), (2 / 5, 0)] =
     Inr (\<lparr>lo = 1 / 5, hi = 1 / 5, y_sum = 0, weight = 1\<rparr>,
          [\<lparr>lo = 2 / 5, hi = 3 / 5, y_sum = 1, weight = 3\<rparr>,
           \<lparr>lo = 4 / 5, hi = 4 / 5, y_sum = 1, weight = 1\<rparr>])"
  by (simp add: fit_def single_def merge_def mean_def)

text \<open>
  C5. For every fitted calibrator and all inputs \<open>p1 \<le> p2\<close>, the calibrated
  outputs satisfy \<open>transform p1 \<le> transform p2\<close>: the calibration map is monotone
  non-decreasing.
\<close>

theorem transform_monotone:
  assumes "fit data = Inr cal" and "p1 \<le> p2"
  shows "transform cal p1 \<le> transform cal p2"
proof -
  obtain b bs where cal: "cal = (b, bs)"
    by (cases cal)
  with assms(1) have "sorted (map mean (b # bs))"
    by (intro fit_sorted) simp
  from sorted_transform_le [OF this assms(2)] cal show ?thesis
    by simp
qed

theorem transform_monotone_witness:
  "fit [(3 / 5, 0), (1 / 5, 0), (4 / 5, 1), (2 / 5, 1), (2 / 5, 0)] =
     Inr (\<lparr>lo = 1 / 5, hi = 1 / 5, y_sum = 0, weight = 1\<rparr>,
          [\<lparr>lo = 2 / 5, hi = 3 / 5, y_sum = 1, weight = 3\<rparr>,
           \<lparr>lo = 4 / 5, hi = 4 / 5, y_sum = 1, weight = 1\<rparr>]) \<and>
   (1 / 10 :: real) \<le> 1 / 2 \<and>
   transform (\<lparr>lo = 1 / 5, hi = 1 / 5, y_sum = 0, weight = 1\<rparr>,
          [\<lparr>lo = 2 / 5, hi = 3 / 5, y_sum = 1, weight = 3\<rparr>,
           \<lparr>lo = 4 / 5, hi = 4 / 5, y_sum = 1, weight = 1\<rparr>]) (1 / 10) = 0 \<and>
   transform (\<lparr>lo = 1 / 5, hi = 1 / 5, y_sum = 0, weight = 1\<rparr>,
          [\<lparr>lo = 2 / 5, hi = 3 / 5, y_sum = 1, weight = 3\<rparr>,
           \<lparr>lo = 4 / 5, hi = 4 / 5, y_sum = 1, weight = 1\<rparr>]) (1 / 2) = 1 / 3 \<and>
   transform (\<lparr>lo = 1 / 5, hi = 1 / 5, y_sum = 0, weight = 1\<rparr>,
          [\<lparr>lo = 2 / 5, hi = 3 / 5, y_sum = 1, weight = 3\<rparr>,
           \<lparr>lo = 4 / 5, hi = 4 / 5, y_sum = 1, weight = 1\<rparr>]) (1 / 10)
     \<le> transform (\<lparr>lo = 1 / 5, hi = 1 / 5, y_sum = 0, weight = 1\<rparr>,
          [\<lparr>lo = 2 / 5, hi = 3 / 5, y_sum = 1, weight = 3\<rparr>,
           \<lparr>lo = 4 / 5, hi = 4 / 5, y_sum = 1, weight = 1\<rparr>]) (1 / 2)"
  using transform_monotone [OF fit_example, of "1 / 10" "1 / 2"] fit_example
  by (simp add: mean_def clip_def)

end
